theory Spec2Isabelle
  imports Complex_Main
begin

section \<open>The jumping game of index.js\<close>

text \<open>
  The game keeps its state in the variables of one closure: \<open>running\<close>, \<open>lastTime\<close>,
  \<open>spawnTimer\<close>, \<open>score\<close>, \<open>speed\<close>, the \<open>player\<close> object, the arrays \<open>obstacles\<close>
  and \<open>obstaclePool\<close>, and \<open>highScore\<close>. The model passes that state explicitly.

  JavaScript numbers are modelled as exact reals, so rounding of doubles is not part of
  the model. The one variable that can hold \<open>NaN\<close> is \<open>highScore\<close> (the result of
  \<open>parseInt\<close>); it otherwise holds an integer, so it has a type of its own.

  Obstacles are objects that the two arrays hold by reference. The model keeps them in a
  store from addresses to objects; the arrays are lists of addresses, and \<open>nextRef\<close>,
  which is no variable of the program, is the address the next object literal \<open>{}\<close>
  gets. The colour of the player never changes and is left out.

  What the environment supplies is a parameter: the timestamp handed to \<open>loop\<close>, the
  value of \<open>performance.now()\<close>, the results of the calls of \<open>Math.random()\<close> and the
  string that \<open>localStorage\<close> holds under the key \<open>highKey\<close>. Rendering and the DOM
  change nothing of the game state and are left out.
\<close>

subsection \<open>Data\<close>

datatype error = TypeError

datatype number = NaN | Finite int

record rect =
  x :: real
  y :: real
  w :: real
  h :: real

record player_obj = rect +
  vy :: real
  onGround :: bool

record obstacle = rect +
  color :: string
  passed :: bool

text \<open>The results of the calls of \<open>Math.random()\<close> that one tick can make, in the order
  of the calls: three in \<open>spawnObstacle\<close>, one in \<open>rand\<close>.\<close>

record draws =
  coin :: real
  wdraw :: real
  hdraw :: real
  gap :: real

record game =
  running :: bool
  lastTime :: real
  spawnTimer :: real
  score :: real
  speed :: real
  player :: player_obj
  obstacles :: "nat list"
  obstaclePool :: "nat list"
  highScore :: number
  heap :: "nat \<Rightarrow> obstacle"
  nextRef :: nat
  storage :: "string option"
  setItems :: "string list"

text \<open>\<open>storage\<close> is the entry of \<open>localStorage\<close> under \<open>highKey\<close> (\<open>None\<close>: no entry);
  \<open>setItems\<close> records the values of the calls of \<open>localStorage.setItem\<close>, oldest first.\<close>

definition baseW :: real where
  "baseW = 800"

definition baseH :: real where
  "baseH = 400"

definition gravity :: real where
  "gravity = 1600"

definition groundY :: real where
  "groundY = baseH - 60"

subsection \<open>Reading and writing the high score\<close>

text \<open>\<open>parseInt(s, 10)\<close> as ECMAScript defines it: leading white space is skipped, one
  sign is read, then the longest run of decimal digits; with no digit the result is
  \<open>NaN\<close>. Strings are strings of ASCII characters here.\<close>

definition isWhiteSpace :: "char \<Rightarrow> bool" where
  "isWhiteSpace c = (of_char c \<in> {9, 10, 11, 12, 13, 32 :: nat})"

definition isDigit :: "char \<Rightarrow> bool" where
  "isDigit c = (48 \<le> (of_char c :: nat) \<and> (of_char c :: nat) \<le> 57)"

definition digitValue :: "char \<Rightarrow> nat" where
  "digitValue c = of_char c - 48"

definition digitsValue :: "string \<Rightarrow> nat" where
  "digitsValue cs = foldl (\<lambda>acc c. 10 * acc + digitValue c) 0 cs"

definition parseInt :: "string \<Rightarrow> number" where
  "parseInt str =
     (let s1 = dropWhile isWhiteSpace str;
          neg = (s1 \<noteq> [] \<and> hd s1 = CHR ''-'');
          s2 = (if s1 \<noteq> [] \<and> (hd s1 = CHR ''-'' \<or> hd s1 = CHR ''+'') then tl s1 else s1);
          z = takeWhile isDigit s2
      in if z = [] then NaN
         else Finite (if neg then - int (digitsValue z) else int (digitsValue z)))"

text \<open>\<open>localStorage.getItem(highKey) || '0'\<close>: \<open>null\<close> and the empty string are falsy.\<close>

definition loadHighScore :: "string option \<Rightarrow> number" where
  "loadHighScore st =
     parseInt (case st of None \<Rightarrow> ''0'' | Some v \<Rightarrow> (if v = [] then ''0'' else v))"

text \<open>\<open>String(n)\<close> for an integer \<open>n\<close>, as ECMAScript defines it: below \<open>10^21\<close> in
  magnitude its decimal digits; from there on the first digit, the further digits up to
  the last that is not zero after a point, and the exponent after \<open>e+\<close>. A minus sign
  comes first below zero. (The digits are those of the integer itself; a double has at
  most 17 that count.)\<close>

definition digitChar :: "nat \<Rightarrow> char" where
  "digitChar d = char_of (48 + d)"

fun digits :: "nat \<Rightarrow> string" where
  "digits n = (if n < 10 then [digitChar n] else digits (n div 10) @ [digitChar (n mod 10)])"

declare digits.simps [simp del]

definition exponentForm :: "nat \<Rightarrow> string" where
  "exponentForm n =
     (let ds = digits n;
          sig = rev (dropWhile (\<lambda>c. c = CHR ''0'') (rev ds))
      in hd sig # (if tl sig = [] then [] else CHR ''.'' # tl sig)
           @ ''e+'' @ digits (length ds - 1))"

definition unsignedString :: "nat \<Rightarrow> string" where
  "unsignedString n = (if n < 10 ^ 21 then digits n else exponentForm n)"

definition String :: "int \<Rightarrow> string" where
  "String i = (if i < 0 then CHR ''-'' # unsignedString (nat (- i)) else unsignedString (nat i))"

text \<open>\<open>score > highScore\<close>: a comparison with \<open>NaN\<close> is false.\<close>

fun exceeds :: "real \<Rightarrow> number \<Rightarrow> bool" where
  "exceeds a NaN = False"
| "exceeds a (Finite b) = (real_of_int b < a)"

definition gameOver :: "game \<Rightarrow> game" where
  "gameOver s =
     (let s1 = s\<lparr>running := False\<rparr>
      in if exceeds (score s1) (highScore s1)
         then s1\<lparr>highScore := Finite \<lfloor>score s1\<rfloor>,
                 storage := Some (String \<lfloor>score s1\<rfloor>),
                 setItems := setItems s1 @ [String \<lfloor>score s1\<rfloor>]\<rparr>
         else s1)"

subsection \<open>Helpers\<close>

text \<open>\<open>rand(min, max)\<close>, with the result \<open>r\<close> of its call of \<open>Math.random()\<close>.\<close>

definition rand :: "real \<Rightarrow> real \<Rightarrow> real \<Rightarrow> real" where
  "rand lo hi r = r * (hi - lo) + lo"

text \<open>\<open>obstaclePool.pop() || {}\<close> takes the last pooled object, or a new one when the
  pool is empty; all six fields are then assigned.\<close>

definition spawnObstacle :: "draws \<Rightarrow> game \<Rightarrow> game" where
  "spawnObstacle r s =
     (let ob = (if obstaclePool s = [] then nextRef s else last (obstaclePool s));
          ow = (if coin r < 0.4 then 20 + wdraw r * 20 else 30 + wdraw r * 40);
          oh = 20 + hdraw r * 40
      in s\<lparr>obstaclePool := butlast (obstaclePool s),
            nextRef := (if obstaclePool s = [] then Suc (nextRef s) else nextRef s),
            heap := (heap s)(ob := \<lparr>x = baseW + 20, y = groundY + (h (player s) - oh),
                                   w = ow, h = oh, color = ''#ef5350'', passed = False\<rparr>),
            obstacles := obstacles s @ [ob]\<rparr>)"

subsection \<open>Physics and collision\<close>

definition rectsOverlap :: "'a rect_scheme \<Rightarrow> 'b rect_scheme \<Rightarrow> bool" where
  "rectsOverlap a b =
     (x a < x b + w b \<and> x a + w a > x b \<and> y a < y b + h b \<and> y a + h a > y b)"

text \<open>Lines 155 to 161 of \<open>loop\<close>: the step of the player.\<close>

definition physics :: "real \<Rightarrow> player_obj \<Rightarrow> player_obj" where
  "physics dt p =
     (let p1 = p\<lparr>vy := vy p + gravity * dt\<rparr>;
          p2 = p1\<lparr>y := y p1 + vy p1 * dt\<rparr>
      in if y p2 \<ge> groundY then p2\<lparr>y := groundY, vy := 0, onGround := True\<rparr> else p2)"

subsection \<open>The main loop\<close>

text \<open>The body of the \<open>for\<close> loop over the obstacles, at index \<open>i\<close>. Reading
  \<open>obstacles[i]\<close> beyond the end gives \<open>undefined\<close>, whose field access throws.\<close>

definition obstacle_step :: "nat \<Rightarrow> real \<Rightarrow> game \<Rightarrow> error + game" where
  "obstacle_step i dt s =
     (if i \<ge> length (obstacles s) then Inl TypeError
      else
        let ob = obstacles s ! i;
            s1 = s\<lparr>heap := (heap s)(ob := (heap s ob)\<lparr>x := x (heap s ob) - speed s * dt\<rparr>)\<rparr>;
            s2 = (if \<not> passed (heap s1 ob) \<and> x (heap s1 ob) + w (heap s1 ob) < x (player s1)
                  then s1\<lparr>heap := (heap s1)(ob := (heap s1 ob)\<lparr>passed := True\<rparr>),
                          score := score s1 + 5\<rparr>
                  else s1)
        in if x (heap s2 ob) + w (heap s2 ob) < - 40
           then Inr (s2\<lparr>obstacles := take i (obstacles s2) @ drop (Suc i) (obstacles s2),
                        obstaclePool := obstaclePool s2 @ [ob]\<rparr>)
           else if rectsOverlap (player s2) (heap s2 ob) then Inr (gameOver s2)
           else Inr s2)"

text \<open>\<open>for (let i = obstacles.length - 1; i >= 0; i--)\<close>: \<open>obstacle_loop n\<close> runs the
  body at the indices \<open>n - 1\<close> down to \<open>0\<close>.\<close>

fun obstacle_loop :: "nat \<Rightarrow> real \<Rightarrow> game \<Rightarrow> error + game" where
  "obstacle_loop 0 dt s = Inr s"
| "obstacle_loop (Suc i) dt s =
     (case obstacle_step i dt s of Inl e \<Rightarrow> Inl e | Inr s' \<Rightarrow> obstacle_loop i dt s')"

definition loop :: "real \<Rightarrow> draws \<Rightarrow> game \<Rightarrow> error + game" where
  "loop now r s =
     (if \<not> running s then Inr s
      else
        let dt = min ((now - lastTime s) / 1000) 0.033;
            s1 = s\<lparr>lastTime := now, score := score s + dt * 10, speed := speed s + dt * 2\<rparr>;
            s2 = s1\<lparr>spawnTimer := spawnTimer s1 - dt\<rparr>;
            s3 = (if spawnTimer s2 \<le> 0
                  then (spawnObstacle r s2)
                         \<lparr>spawnTimer := rand 0.9 1.6 (gap r) - min 0.5 (speed s2 / 1000)\<rparr>
                  else s2);
            s4 = s3\<lparr>player := physics dt (player s3)\<rparr>
        in obstacle_loop (length (obstacles s4)) dt s4)"

text \<open>\<open>resetGame\<close>, with the value \<open>t\<close> of \<open>performance.now()\<close>; it ends by calling
  \<open>loop(lastTime)\<close> itself.\<close>

definition resetGame :: "real \<Rightarrow> draws \<Rightarrow> game \<Rightarrow> error + game" where
  "resetGame t r s =
     loop t r (s\<lparr>obstacles := [], obstaclePool := [],
                 player := (player s)\<lparr>y := groundY, vy := 0, onGround := True\<rparr>,
                 score := 0, spawnTimer := 0, speed := 240, running := True, lastTime := t\<rparr>)"

definition doJump :: "real \<Rightarrow> draws \<Rightarrow> game \<Rightarrow> error + game" where
  "doJump t r s =
     (if \<not> running s then resetGame t r s
      else if onGround (player s)
      then Inr (s\<lparr>player := (player s)\<lparr>vy := - 720, onGround := False\<rparr>\<rparr>)
      else Inr s)"

text \<open>The state when the script has run, before any input: \<open>st\<close> is what
  \<open>localStorage\<close> holds.\<close>

definition initial :: "string option \<Rightarrow> game" where
  "initial st =
     \<lparr>running = False, lastTime = 0, spawnTimer = 0, score = 0, speed = 240,
      player = \<lparr>x = 80, y = groundY, w = 40, h = 40, vy = 0, onGround = True\<rparr>,
      obstacles = [], obstaclePool = [], highScore = loadHighScore st,
      heap = (\<lambda>a. \<lparr>x = 0, y = 0, w = 0, h = 0, color = [], passed = False\<rparr>),
      nextRef = 0, storage = st, setItems = []\<rparr>"

text \<open>The states the game can be in: the handlers are \<open>resetGame\<close> (restart button,
  first interaction), \<open>doJump\<close> (key, mouse, touch) and \<open>loop\<close> (animation frame).\<close>

inductive reachable :: "game \<Rightarrow> bool" where
  start: "reachable (initial st)"
| reset: "reachable s \<Longrightarrow> resetGame t r s = Inr s' \<Longrightarrow> reachable s'"
| jump: "reachable s \<Longrightarrow> doJump t r s = Inr s' \<Longrightarrow> reachable s'"
| tick: "reachable s \<Longrightarrow> loop now r s = Inr s' \<Longrightarrow> reachable s'"

subsection \<open>Notions used in the properties\<close>

text \<open>The time step of a tick, and the state of \<open>loop\<close> when it reaches its \<open>for\<close>
  loop (lines 140 to 161).\<close>

definition elapsed :: "real \<Rightarrow> game \<Rightarrow> real" where
  "elapsed now s = min ((now - lastTime s) / 1000) 0.033"

definition before_obstacles :: "real \<Rightarrow> draws \<Rightarrow> game \<Rightarrow> game" where
  "before_obstacles now r s =
     (let dt = elapsed now s;
          s1 = s\<lparr>lastTime := now, score := score s + dt * 10, speed := speed s + dt * 2\<rparr>;
          s2 = s1\<lparr>spawnTimer := spawnTimer s1 - dt\<rparr>;
          s3 = (if spawnTimer s2 \<le> 0
                then (spawnObstacle r s2)
                       \<lparr>spawnTimer := rand 0.9 1.6 (gap r) - min 0.5 (speed s2 / 1000)\<rparr>
                else s2)
      in s3\<lparr>player := physics dt (player s3)\<rparr>)"

text \<open>No object is held twice, by one array or by both, and every object held has been
  allocated.\<close>

definition pool_inv :: "game \<Rightarrow> bool" where
  "pool_inv s =
     (distinct (obstacles s @ obstaclePool s) \<and>
      (\<forall>a \<in> set (obstacles s @ obstaclePool s). a < nextRef s))"


text \<open>A player that is on the ground rests at the ground level.\<close>

definition grounded_inv :: "player_obj \<Rightarrow> bool" where
  "grounded_inv p = (onGround p \<longrightarrow> y p = groundY \<and> vy p = 0)"

text \<open>Lines 166 to 170 of the loop body, seen from one obstacle: \<open>d\<close> is the distance it
  moves in the tick and \<open>px\<close> is \<open>player.x\<close>. The bonus is due when the flag is not set
  and the trailing edge, after the move, is left of the player.\<close>

definition bonus_due :: "real \<Rightarrow> real \<Rightarrow> obstacle \<Rightarrow> bool" where
  "bonus_due px d ob = (\<not> passed ob \<and> x ob - d + w ob < px)"

definition after_move :: "real \<Rightarrow> real \<Rightarrow> obstacle \<Rightarrow> obstacle" where
  "after_move px d ob =
     (if bonus_due px d ob then ob\<lparr>x := x ob - d, passed := True\<rparr> else ob\<lparr>x := x ob - d\<rparr>)"

text \<open>The tick \<open>loop(now)\<close> from the state \<open>s\<close> adds the bonus for the object at \<open>a\<close>.\<close>

definition awarded :: "real \<Rightarrow> draws \<Rightarrow> game \<Rightarrow> nat \<Rightarrow> bool" where
  "awarded now r s a =
     (let b = before_obstacles now r s
      in a \<in> set (obstacles b) \<and>
         bonus_due (x (player b)) (speed b * elapsed now s) (heap b a))"







text \<open>From \<open>s\<close> to \<open>s'\<close> the object at \<open>a\<close> is in the active list after every handler
  that runs: one active lifetime of the obstacle.\<close>

inductive stays_active :: "nat \<Rightarrow> game \<Rightarrow> game \<Rightarrow> bool" for a :: nat where
  here: "a \<in> set (obstacles s) \<Longrightarrow> stays_active a s s"
| tick: "stays_active a s s1 \<Longrightarrow> loop now r s1 = Inr s2 \<Longrightarrow> a \<in> set (obstacles s2) \<Longrightarrow>
           stays_active a s s2"
| jump: "stays_active a s s1 \<Longrightarrow> doJump t r s1 = Inr s2 \<Longrightarrow> a \<in> set (obstacles s2) \<Longrightarrow>
           stays_active a s s2"
| reset: "stays_active a s s1 \<Longrightarrow> resetGame t r s1 = Inr s2 \<Longrightarrow> a \<in> set (obstacles s2) \<Longrightarrow>
           stays_active a s s2"

text \<open>After the move of the tick \<open>loop(now)\<close> from \<open>s\<close>, the trailing edge of the obstacle
  at \<open>a\<close> is left of the player; and the tick spawns the obstacle at \<open>a\<close>
  (\<open>spawnObstacle\<close> pushes it to the end of the active list).\<close>

definition edge_left :: "real \<Rightarrow> draws \<Rightarrow> game \<Rightarrow> nat \<Rightarrow> bool" where
  "edge_left now r s a =
     (let b = before_obstacles now r s
      in x (heap b a) - speed b * elapsed now s + w (heap b a) < x (player b))"

definition spawned :: "real \<Rightarrow> draws \<Rightarrow> game \<Rightarrow> nat \<Rightarrow> bool" where
  "spawned now r s a =
     (spawnTimer s - elapsed now s \<le> 0 \<and> a = last (obstacles (before_obstacles now r s)))"

text \<open>One active lifetime of the obstacle at \<open>a\<close>, tick by tick: it starts with the tick
  that spawns the obstacle and goes on with the ticks of the running game that find it in
  the active list. \<open>es\<close> records for each of these ticks whether the trailing edge was
  left of the player after the move, \<open>ws\<close> whether the tick added the bonus for it.\<close>

inductive lifetime :: "nat \<Rightarrow> bool list \<Rightarrow> bool list \<Rightarrow> game \<Rightarrow> bool" for a :: nat where
  spawn: "pool_inv s \<Longrightarrow> running s \<Longrightarrow> spawned now r s a \<Longrightarrow> loop now r s = Inr s' \<Longrightarrow>
            lifetime a [edge_left now r s a] [awarded now r s a] s'"
| tick: "lifetime a es ws s \<Longrightarrow> a \<in> set (obstacles s) \<Longrightarrow> running s \<Longrightarrow>
           loop now r s = Inr s' \<Longrightarrow>
           lifetime a (es @ [edge_left now r s a]) (ws @ [awarded now r s a]) s'"
| jump: "lifetime a es ws s \<Longrightarrow> a \<in> set (obstacles s) \<Longrightarrow> running s \<Longrightarrow>
           doJump t r s = Inr s' \<Longrightarrow> lifetime a es ws s'"

text \<open>Concrete inputs: draws that are all zero, the state after the first start of the
  game at time 1000 with an empty \<open>localStorage\<close>, the same state after a jump, with a
  spawn due, and with the obstacle about to pass the player; two runs that end with the
  stored high score 10, at the scores 10.5 and 15.7.\<close>

definition calm :: draws where
  "calm = \<lparr>coin = 0, wdraw = 0, hdraw = 0, gap = 0\<rparr>"

definition run_start :: game where
  "run_start =
     \<lparr>running = True, lastTime = 1000, spawnTimer = 0.66, score = 0, speed = 240,
      player = \<lparr>x = 80, y = 340, w = 40, h = 40, vy = 0, onGround = True\<rparr>,
      obstacles = [0], obstaclePool = [], highScore = Finite 0,
      heap = (\<lambda>a. \<lparr>x = 0, y = 0, w = 0, h = 0, color = [], passed = False\<rparr>)
               (0 := \<lparr>x = 820, y = 360, w = 20, h = 20, color = ''#ef5350'', passed = False\<rparr>),
      nextRef = 1, storage = None, setItems = []\<rparr>"

definition airborne :: game where
  "airborne = run_start\<lparr>player := (player run_start)\<lparr>vy := - 720, onGround := False\<rparr>\<rparr>"

definition due :: game where
  "due = run_start\<lparr>spawnTimer := 0\<rparr>"

definition passing :: game where
  "passing = run_start\<lparr>heap := (heap run_start)(0 := (heap run_start 0)\<lparr>x := 62\<rparr>)\<rparr>"





text \<open>The state in which \<open>resetGame\<close> calls \<open>loop\<close> at the first start.\<close>

definition fresh_run :: game where
  "fresh_run = (initial None)\<lparr>running := True, lastTime := 1000\<rparr>"

section \<open>Properties\<close>

subsection \<open>The loop over the obstacles\<close>

lemma gameOver_frame [simp]:
  "score (gameOver s) = score s" "speed (gameOver s) = speed s"
  "spawnTimer (gameOver s) = spawnTimer s" "player (gameOver s) = player s"
  "lastTime (gameOver s) = lastTime s" "obstacles (gameOver s) = obstacles s"
  "obstaclePool (gameOver s) = obstaclePool s" "heap (gameOver s) = heap s"
  "nextRef (gameOver s) = nextRef s" "running (gameOver s) = False"
  by (simp_all add: gameOver_def Let_def)

lemma obstacle_step_Inr:
  "i < length (obstacles s) \<Longrightarrow> \<exists>s'. obstacle_step i dt s = Inr s'"
  by (simp add: obstacle_step_def Let_def)

lemma obstacle_step_frame:
  assumes "obstacle_step i dt s = Inr s'"
  shows "spawnTimer s' = spawnTimer s" "speed s' = speed s" "player s' = player s"
    "lastTime s' = lastTime s" "nextRef s' = nextRef s" "score s \<le> score s'"
    "i \<le> length (obstacles s')"
  using assms
  by (auto simp: obstacle_step_def Let_def split: if_splits)

lemma obstacle_loop_total:
  "n \<le> length (obstacles s) \<Longrightarrow> \<exists>s'. obstacle_loop n dt s = Inr s'"
proof (induction n arbitrary: s)
  case 0
  then show ?case by simp
next
  case (Suc n)
  then obtain s1 where s1: "obstacle_step n dt s = Inr s1"
    using obstacle_step_Inr [of n s dt] by auto
  then have "n \<le> length (obstacles s1)"
    by (rule obstacle_step_frame)
  with Suc.IH [of s1] s1 show ?case by simp
qed

lemma obstacle_loop_frame:
  "obstacle_loop n dt s = Inr s' \<Longrightarrow>
     spawnTimer s' = spawnTimer s \<and> speed s' = speed s \<and> player s' = player s \<and>
     lastTime s' = lastTime s \<and> nextRef s' = nextRef s \<and> score s \<le> score s'"
proof (induction n arbitrary: s)
  case 0
  then show ?case by simp
next
  case (Suc n)
  then obtain s1 where s1: "obstacle_step n dt s = Inr s1" and l: "obstacle_loop n dt s1 = Inr s'"
    by (auto split: sum.splits)
  from Suc.IH [OF l] obstacle_step_frame [OF s1] show ?case by simp
qed

lemma loop_running:
  "running s \<Longrightarrow>
   loop now r s =
     obstacle_loop (length (obstacles (before_obstacles now r s))) (elapsed now s)
       (before_obstacles now r s)"
  by (simp add: loop_def before_obstacles_def elapsed_def Let_def)

lemma spawnObstacle_frame [simp]:
  "score (spawnObstacle r s) = score s" "speed (spawnObstacle r s) = speed s"
  "spawnTimer (spawnObstacle r s) = spawnTimer s" "player (spawnObstacle r s) = player s"
  "lastTime (spawnObstacle r s) = lastTime s" "running (spawnObstacle r s) = running s"
  "highScore (spawnObstacle r s) = highScore s"
  by (simp_all add: spawnObstacle_def Let_def)

lemma before_obstacles_fields:
  "speed (before_obstacles now r s) = speed s + elapsed now s * 2"
  "score (before_obstacles now r s) = score s + elapsed now s * 10"
  "player (before_obstacles now r s) = physics (elapsed now s) (player s)"
  "lastTime (before_obstacles now r s) = now"
  "spawnTimer (before_obstacles now r s) =
     (if spawnTimer s - elapsed now s \<le> 0
      then rand 0.9 1.6 (gap r) - min 0.5 ((speed s + elapsed now s * 2) / 1000)
      else spawnTimer s - elapsed now s)"
  "obstacles (before_obstacles now r s) =
     (if spawnTimer s - elapsed now s \<le> 0
      then obstacles (spawnObstacle r s) else obstacles s)"
  by (simp_all add: before_obstacles_def Let_def spawnObstacle_def)

lemma loop_total: "\<exists>s'. loop now r s = Inr s'"
proof (cases "running s")
  case True
  then show ?thesis
    by (simp add: loop_running obstacle_loop_total)
next
  case False
  then show ?thesis by (simp add: loop_def)
qed

lemma loop_fields:
  assumes "running s" "loop now r s = Inr s'"
  shows "speed s' = speed s + elapsed now s * 2"
    and "score s + elapsed now s * 10 \<le> score s'"
    and "player s' = physics (elapsed now s) (player s)"
    and "spawnTimer s' =
          (if spawnTimer s - elapsed now s \<le> 0
           then rand 0.9 1.6 (gap r) - min 0.5 ((speed s + elapsed now s * 2) / 1000)
           else spawnTimer s - elapsed now s)"
    and "lastTime s' = now"
proof -
  have l: "obstacle_loop (length (obstacles (before_obstacles now r s))) (elapsed now s)
             (before_obstacles now r s) = Inr s'"
    using assms by (simp add: loop_running)
  from obstacle_loop_frame [OF l]
  show "speed s' = speed s + elapsed now s * 2" "score s + elapsed now s * 10 \<le> score s'"
    "player s' = physics (elapsed now s) (player s)"
    "spawnTimer s' =
          (if spawnTimer s - elapsed now s \<le> 0
           then rand 0.9 1.6 (gap r) - min 0.5 ((speed s + elapsed now s * 2) / 1000)
           else spawnTimer s - elapsed now s)" "lastTime s' = now"
    by (simp_all add: before_obstacles_fields)
qed

subsection \<open>The two arrays\<close>

lemma spawnObstacle_pool_inv: "pool_inv s \<Longrightarrow> pool_inv (spawnObstacle r s)"
proof (cases "obstaclePool s" rule: rev_cases)
  case Nil
  assume "pool_inv s"
  with Nil show ?thesis
    by (auto simp: pool_inv_def spawnObstacle_def Let_def less_Suc_eq)
next
  case (snoc ps p)
  assume "pool_inv s"
  with snoc show ?thesis
    by (auto simp: pool_inv_def spawnObstacle_def Let_def)
qed

lemma obstacle_step_pool_inv:
  assumes "pool_inv s" "obstacle_step i dt s = Inr s'"
  shows "pool_inv s'"
proof -
  from assms(2) have i: "i < length (obstacles s)"
    by (auto simp: obstacle_step_def split: if_splits)
  then have split: "obstacles s = take i (obstacles s) @ (obstacles s ! i) # drop (Suc i) (obstacles s)"
    by (rule id_take_nth_drop)
  have nr: "nextRef s' = nextRef s"
    using assms(2) by (rule obstacle_step_frame)
  have "(obstacles s' = obstacles s \<and> obstaclePool s' = obstaclePool s) \<or>
        (obstacles s' = take i (obstacles s) @ drop (Suc i) (obstacles s) \<and>
         obstaclePool s' = obstaclePool s @ [obstacles s ! i])"
    using assms(2) i by (auto simp: obstacle_step_def Let_def split: if_splits)
  then show ?thesis
  proof
    assume "obstacles s' = obstacles s \<and> obstaclePool s' = obstaclePool s"
    with assms(1) nr show ?thesis by (simp add: pool_inv_def)
  next
    assume moved: "obstacles s' = take i (obstacles s) @ drop (Suc i) (obstacles s) \<and>
         obstaclePool s' = obstaclePool s @ [obstacles s ! i]"
    have d: "distinct ((take i (obstacles s) @ (obstacles s ! i) # drop (Suc i) (obstacles s))
                @ obstaclePool s)"
      and b: "\<forall>a \<in> set ((take i (obstacles s) @ (obstacles s ! i) # drop (Suc i) (obstacles s))
                @ obstaclePool s). a < nextRef s"
      using assms(1) split by (simp_all add: pool_inv_def)
    from d b moved nr show ?thesis
      by (auto simp: pool_inv_def)
  qed
qed

lemma obstacle_loop_pool_inv:
  "pool_inv s \<Longrightarrow> obstacle_loop n dt s = Inr s' \<Longrightarrow> pool_inv s'"
proof (induction n arbitrary: s)
  case 0
  then show ?case by simp
next
  case (Suc n)
  from Suc.prems(2) obtain s1 where s1: "obstacle_step n dt s = Inr s1"
    and l: "obstacle_loop n dt s1 = Inr s'"
    by (auto split: sum.splits)
  from Suc.IH [OF obstacle_step_pool_inv [OF Suc.prems(1) s1] l] show ?case .
qed

lemma before_obstacles_lists:
  "obstacles (before_obstacles now r s) =
     (if spawnTimer s - elapsed now s \<le> 0 then obstacles (spawnObstacle r s) else obstacles s)"
  "obstaclePool (before_obstacles now r s) =
     (if spawnTimer s - elapsed now s \<le> 0 then obstaclePool (spawnObstacle r s)
      else obstaclePool s)"
  "nextRef (before_obstacles now r s) =
     (if spawnTimer s - elapsed now s \<le> 0 then nextRef (spawnObstacle r s) else nextRef s)"
  "heap (before_obstacles now r s) =
     (if spawnTimer s - elapsed now s \<le> 0 then heap (spawnObstacle r s) else heap s)"
  by (simp_all add: before_obstacles_def Let_def spawnObstacle_def)

lemma before_obstacles_pool_inv: "pool_inv s \<Longrightarrow> pool_inv (before_obstacles now r s)"
  using spawnObstacle_pool_inv [of s r]
  by (simp add: pool_inv_def before_obstacles_lists)

lemma loop_pool_inv: "pool_inv s \<Longrightarrow> loop now r s = Inr s' \<Longrightarrow> pool_inv s'"
proof (cases "running s")
  case True
  assume "pool_inv s" "loop now r s = Inr s'"
  with True show ?thesis
    using obstacle_loop_pool_inv [OF before_obstacles_pool_inv]
    by (simp add: loop_running)
next
  case False
  assume "pool_inv s" "loop now r s = Inr s'"
  with False show ?thesis by (simp add: loop_def)
qed

lemma resetGame_pool_inv: "resetGame t r s = Inr s' \<Longrightarrow> pool_inv s'"
proof -
  assume a: "resetGame t r s = Inr s'"
  have "pool_inv (s\<lparr>obstacles := [], obstaclePool := [],
                 player := (player s)\<lparr>y := groundY, vy := 0, onGround := True\<rparr>,
                 score := 0, spawnTimer := 0, speed := 240, running := True, lastTime := t\<rparr>)"
    by (simp add: pool_inv_def)
  from loop_pool_inv [OF this] a show ?thesis
    by (simp add: resetGame_def)
qed

lemma doJump_pool_inv:
  assumes "pool_inv s" "doJump t r s = Inr s'"
  shows "pool_inv s'"
proof (cases "running s")
  case True
  with assms show ?thesis
    by (auto simp: doJump_def pool_inv_def split: if_splits)
next
  case False
  with assms(2) show ?thesis
    by (simp add: doJump_def resetGame_pool_inv)
qed

lemma reachable_pool_inv: "reachable s \<Longrightarrow> pool_inv s"
proof (induction rule: reachable.induct)
  case (start st)
  show ?case by (simp add: pool_inv_def initial_def)
next
  case (reset s t r s')
  then show ?case by (simp add: resetGame_pool_inv)
next
  case (jump s t r s')
  then show ?case by (simp add: doJump_pool_inv)
next
  case (tick s now r s')
  then show ?case by (simp add: loop_pool_inv)
qed

subsection \<open>The first start\<close>

lemma parseInt_zero: "parseInt ''0'' = Finite 0"
  by (simp add: parseInt_def isWhiteSpace_def isDigit_def digitsValue_def digitValue_def)

lemma resetGame_initial: "resetGame 1000 calm (initial None) = Inr run_start"
  by (simp add: resetGame_def loop_def initial_def calm_def run_start_def spawnObstacle_def
      physics_def obstacle_step_def rectsOverlap_def rand_def loadHighScore_def parseInt_zero
      groundY_def baseH_def baseW_def gravity_def Let_def)

lemma reachable_run_start: "reachable run_start"
  using reachable.reset [OF reachable.start resetGame_initial] .

subsection \<open>Collision\<close>

text \<open>C3: \<open>rectsOverlap\<close> holds exactly when the four strict inequalities hold, and two
  rectangles of which one ends where the other begins, on either axis, do not overlap.\<close>

theorem rectsOverlap_strict:
  "rectsOverlap a b =
     (x a < x b + w b \<and> x a + w a > x b \<and> y a < y b + h b \<and> y a + h a > y b)
   \<and> (x a + w a = x b \<or> x b + w b = x a \<or> y a + h a = y b \<or> y b + h b = y a
        \<longrightarrow> \<not> rectsOverlap a b)"
  by (auto simp: rectsOverlap_def)

theorem rectsOverlap_strict_witness:
  "x \<lparr>x = 0, y = 0, w = 10, h = 10\<rparr> + w \<lparr>x = 0, y = 0, w = 10, h = 10\<rparr>
     = x \<lparr>x = 10, y = 0, w = 5, h = 5\<rparr>
   \<and> \<not> rectsOverlap \<lparr>x = 0, y = 0, w = 10, h = 10\<rparr> \<lparr>x = 10, y = 0, w = 5, h = 5\<rparr>"
  using rectsOverlap_strict [of "\<lparr>x = 0, y = 0, w = 10, h = 10\<rparr>" "\<lparr>x = 10, y = 0, w = 5, h = 5\<rparr>"]
  by simp

subsection \<open>Jumping\<close>

text \<open>C6: while the game runs, a jump request with the player in the air leaves the whole
  state as it is, so no field of the player changes; with the player on the ground it
  sets \<open>vy\<close> to \<open>-720\<close> and \<open>onGround\<close> to false and changes nothing else.\<close>

theorem doJump_running:
  "running s \<Longrightarrow>
     (\<not> onGround (player s) \<longrightarrow> doJump t r s = Inr s) \<and>
     (onGround (player s) \<longrightarrow>
        doJump t r s = Inr (s\<lparr>player := (player s)\<lparr>vy := - 720, onGround := False\<rparr>\<rparr>))"
  by (simp add: doJump_def)

theorem doJump_running_witness:
  "running run_start \<and> onGround (player run_start) \<and> doJump 0 calm run_start = Inr airborne \<and>
   running airborne \<and> \<not> onGround (player airborne) \<and> doJump 0 calm airborne = Inr airborne"
  using doJump_running [of run_start 0 calm] doJump_running [of airborne 0 calm]
  by (simp add: run_start_def airborne_def)

subsection \<open>The spawn countdown\<close>

text \<open>C7: in a tick in which the countdown, less the time step, is zero or below, the
  countdown is set to \<open>rand(0.9, 1.6) - Math.min(0.5, speed / 1000)\<close>; for every speed and
  every random draw (a draw is never negative) this is at least 0.4, so positive.\<close>

theorem spawn_interval_positive:
  assumes "running s" "spawnTimer s - min ((now - lastTime s) / 1000) 0.033 \<le> 0" "0 \<le> gap r"
  shows "\<exists>s'. loop now r s = Inr s' \<and>
    spawnTimer s' = rand 0.9 1.6 (gap r)
          - min 0.5 ((speed s + min ((now - lastTime s) / 1000) 0.033 * 2) / 1000) \<and>
    0.4 \<le> spawnTimer s' \<and> 0 < spawnTimer s'"
proof -
  obtain s' where s': "loop now r s = Inr s'"
    using loop_total by blast
  have eq: "spawnTimer s' = rand 0.9 1.6 (gap r)
          - min 0.5 ((speed s + min ((now - lastTime s) / 1000) 0.033 * 2) / 1000)"
    using loop_fields(4) [OF assms(1) s'] assms(2) by (simp add: elapsed_def)
  moreover have "0.9 \<le> rand 0.9 1.6 (gap r)"
    using assms(3) by (simp add: rand_def)
  ultimately have "0.4 \<le> spawnTimer s'"
    by linarith
  with s' eq show ?thesis by auto
qed

theorem spawn_interval_positive_witness:
  "running due \<and> spawnTimer due - min ((1016 - lastTime due) / 1000) 0.033 \<le> 0 \<and> 0 \<le> gap calm \<and>
   (\<exists>s'. loop 1016 calm due = Inr s' \<and> 0.4 \<le> spawnTimer s' \<and> 0 < spawnTimer s')"
proof -
  have hyps: "running due" "spawnTimer due - min ((1016 - lastTime due) / 1000) 0.033 \<le> 0"
    "0 \<le> gap calm"
    by (simp_all add: due_def run_start_def calm_def)
  from spawn_interval_positive [OF hyps] hyps show ?thesis
    by blast
qed

subsection \<open>Score and speed\<close>

text \<open>C8, as the code has it: in a tick of a running game whose timestamp is not earlier
  than the one before (the time step is then not negative), score and speed do not
  decrease.\<close>

theorem score_speed_monotone:
  assumes "running s" "lastTime s \<le> now"
  shows "\<exists>s'. loop now r s = Inr s' \<and> score s \<le> score s' \<and> speed s \<le> speed s'"
proof -
  obtain s' where s': "loop now r s = Inr s'"
    using loop_total by blast
  have "0 \<le> elapsed now s"
    using assms(2) by (simp add: elapsed_def)
  with loop_fields(1,2) [OF assms(1) s'] have "score s \<le> score s'" "speed s \<le> speed s'"
    by linarith+
  with s' show ?thesis
    by blast
qed

theorem score_speed_monotone_witness:
  "running run_start \<and> lastTime run_start \<le> 1016 \<and>
   (\<exists>s'. loop 1016 calm run_start = Inr s' \<and> score run_start \<le> score s' \<and>
      speed run_start \<le> speed s')"
proof -
  have hyps: "running run_start" "lastTime run_start \<le> 1016"
    by (simp_all add: run_start_def)
  from score_speed_monotone [OF hyps] hyps show ?thesis
    by blast
qed

text \<open>C8 as stated fails: \<open>loop\<close> bounds the time step from above only. The state after
  the first start has \<open>lastTime = 1000\<close>; a tick with the timestamp 900 has the time step
  \<open>-0.1\<close> and takes the score from 0 to \<open>-1\<close> and the speed from 240 to 239.8.\<close>

theorem score_decreases_backwards:
  "reachable run_start \<and> running run_start \<and> \<not> isl (loop 900 calm run_start) \<and>
   score (projr (loop 900 calm run_start)) < score run_start \<and>
   speed (projr (loop 900 calm run_start)) < speed run_start"
  using reachable_run_start
  by (simp add: loop_def run_start_def calm_def physics_def obstacle_step_def rectsOverlap_def
      gravity_def groundY_def baseH_def Let_def)

subsection \<open>Active list and pool\<close>

text \<open>C9: in every state the game can reach, no obstacle object occurs twice in the
  active list and the pool taken together: not in both, and not twice in either. Each
  operation on the two arrays keeps it so: \<open>spawnObstacle\<close>, one pass of the loop body
  (which recycles), a whole tick, and \<open>resetGame\<close>.\<close>

theorem pool_exclusive:
  "(reachable s \<longrightarrow> distinct (obstacles s @ obstaclePool s)) \<and>
   (pool_inv s \<longrightarrow>
      distinct (obstacles s @ obstaclePool s) \<and>
      pool_inv (spawnObstacle r s) \<and>
      (\<forall>s'. obstacle_step i dt s = Inr s' \<longrightarrow> pool_inv s') \<and>
      (\<exists>s'. loop now r s = Inr s' \<and> pool_inv s')) \<and>
   (\<exists>s'. resetGame t r s = Inr s' \<and> pool_inv s')"
proof -
  have "reachable s \<longrightarrow> distinct (obstacles s @ obstaclePool s)"
    using reachable_pool_inv [of s] by (simp add: pool_inv_def)
  moreover have "pool_inv s \<longrightarrow> (\<exists>s'. loop now r s = Inr s' \<and> pool_inv s')"
    using loop_total [of now r s] loop_pool_inv [of s now r] by blast
  moreover have "\<exists>s'. resetGame t r s = Inr s' \<and> pool_inv s'"
    using loop_total resetGame_pool_inv [of t r s] by (fastforce simp: resetGame_def)
  moreover have "pool_inv s \<longrightarrow> distinct (obstacles s @ obstaclePool s)"
    by (simp add: pool_inv_def)
  ultimately show ?thesis
    using spawnObstacle_pool_inv [of s r] obstacle_step_pool_inv [of s i dt] by blast
qed

theorem pool_exclusive_witness:
  "reachable run_start \<and> pool_inv run_start \<and> obstacle_step 0 0 run_start = Inr run_start \<and>
   distinct (obstacles run_start @ obstaclePool run_start) \<and>
   pool_inv (spawnObstacle calm run_start) \<and>
   (\<exists>s'. loop 1016 calm run_start = Inr s' \<and> pool_inv s') \<and>
   (\<exists>s'. resetGame 2000 calm run_start = Inr s' \<and> pool_inv s')"
proof -
  have inv: "pool_inv run_start"
    by (simp add: pool_inv_def run_start_def)
  have step: "obstacle_step 0 0 run_start = Inr run_start"
    by (simp add: obstacle_step_def run_start_def rectsOverlap_def Let_def)
  from pool_exclusive [of run_start calm 0 0 1016 2000] inv step reachable_run_start
  show ?thesis by simp
qed

subsection \<open>The first tick of a run\<close>

text \<open>C10: \<open>resetGame\<close> empties both arrays, sets the countdown to 0 and runs the first
  tick itself, with the time step 0; that tick spawns: afterwards the active list holds
  exactly one obstacle, a newly allocated one, the pool is empty and the countdown has
  been set again. (The width drawn is never negative, so the obstacle is not recycled at
  once.)\<close>

theorem resetGame_spawns_one:
  assumes "0 \<le> wdraw r"
  shows "\<exists>s'. resetGame t r s = Inr s' \<and> obstacles s' = [nextRef s] \<and> obstaclePool s' = []
           \<and> nextRef s' = Suc (nextRef s)
           \<and> spawnTimer s' = rand 0.9 1.6 (gap r) - min 0.5 (240 / 1000)"
  using assms
  by (simp add: resetGame_def loop_def spawnObstacle_def obstacle_step_def Let_def baseW_def)

theorem resetGame_spawns_one_witness:
  "0 \<le> wdraw calm \<and>
   (\<exists>s'. resetGame 1000 calm (initial None) = Inr s' \<and> obstacles s' = [nextRef (initial None)]
      \<and> obstaclePool s' = [] \<and> nextRef s' = Suc (nextRef (initial None)))"
proof -
  have hyp: "0 \<le> wdraw calm"
    by (simp add: calm_def)
  from resetGame_spawns_one [OF hyp, of 1000 "initial None"] hyp show ?thesis
    by blast
qed

subsection \<open>The player\<close>

lemma physics_grounded: "grounded_inv p \<Longrightarrow> grounded_inv (physics dt p)"
  by (auto simp: grounded_inv_def physics_def Let_def gravity_def)

lemma loop_grounded:
  assumes "grounded_inv (player s)" "loop now r s = Inr s'"
  shows "grounded_inv (player s')"
proof (cases "running s")
  case True
  from loop_fields(3) [OF True assms(2)] physics_grounded [OF assms(1)]
  show ?thesis by simp
next
  case False
  with assms show ?thesis by (simp add: loop_def)
qed

lemma resetGame_grounded: "resetGame t r s = Inr s' \<Longrightarrow> grounded_inv (player s')"
proof -
  assume a: "resetGame t r s = Inr s'"
  have "grounded_inv (player (s\<lparr>obstacles := [], obstaclePool := [],
                 player := (player s)\<lparr>y := groundY, vy := 0, onGround := True\<rparr>,
                 score := 0, spawnTimer := 0, speed := 240, running := True, lastTime := t\<rparr>))"
    by (simp add: grounded_inv_def)
  from loop_grounded [OF this] a show ?thesis
    by (simp add: resetGame_def)
qed

lemma doJump_grounded:
  assumes "grounded_inv (player s)" "doJump t r s = Inr s'"
  shows "grounded_inv (player s')"
proof (cases "running s")
  case True
  with assms show ?thesis
    by (auto simp: doJump_def grounded_inv_def split: if_splits)
next
  case False
  with assms(2) show ?thesis
    by (simp add: doJump_def resetGame_grounded)
qed

lemma reachable_grounded: "reachable s \<Longrightarrow> grounded_inv (player s)"
proof (induction rule: reachable.induct)
  case (start st)
  show ?case by (simp add: grounded_inv_def initial_def)
next
  case (reset s t r s')
  then show ?case by (simp add: resetGame_grounded)
next
  case (jump s t r s')
  then show ?case by (simp add: doJump_grounded)
next
  case (tick s now r s')
  then show ?case by (simp add: loop_grounded)
qed

lemma physics_cases:
  assumes "grounded_inv p"
  shows "(if y p + (vy p + gravity * dt) * dt \<ge> groundY
          then physics dt p = p\<lparr>vy := 0, y := groundY, onGround := True\<rparr>
          else physics dt p = p\<lparr>vy := vy p + gravity * dt, y := y p + (vy p + gravity * dt) * dt\<rparr>
               \<and> \<not> onGround p)"
proof (cases "onGround p")
  case True
  with assms have "y p = groundY" "vy p = 0"
    by (simp_all add: grounded_inv_def)
  moreover have "0 \<le> gravity * dt * dt"
    by (simp add: gravity_def)
  ultimately show ?thesis
    by (simp add: physics_def Let_def)
next
  case False
  then show ?thesis
    by (simp add: physics_def Let_def)
qed

text \<open>C2: a tick of the running game, in any state the game can reach, takes the player
  from \<open>vy\<close>, \<open>y\<close> to \<open>vy1 = vy + gravity * dt\<close> and \<open>y1 = y + vy1 * dt\<close>, with \<open>dt\<close>
  the time step (never above 0.033), and then clamps: with \<open>y1 \<ge> groundY\<close> the player is
  at \<open>groundY\<close> with \<open>vy = 0\<close> and \<open>onGround\<close> true, otherwise it is at \<open>y1\<close> with \<open>vy1\<close> and
  \<open>onGround\<close> false. In both cases \<open>y \<le> groundY\<close> afterwards. (The source assigns
  \<open>onGround\<close> in the first case only; in the second it is false already, since a
  player that is on the ground rests at \<open>groundY\<close> with \<open>vy = 0\<close>.)\<close>

theorem player_step:
  assumes "reachable s" "running s"
  shows "\<exists>s'. loop now r s = Inr s' \<and>
    (let dt = min ((now - lastTime s) / 1000) 0.033;
         vy1 = vy (player s) + gravity * dt;
         y1 = y (player s) + vy1 * dt
     in (if y1 \<ge> groundY
         then y (player s') = groundY \<and> vy (player s') = 0 \<and> onGround (player s')
         else y (player s') = y1 \<and> vy (player s') = vy1 \<and> \<not> onGround (player s'))
        \<and> y (player s') \<le> groundY
        \<and> x (player s') = x (player s) \<and> w (player s') = w (player s)
        \<and> h (player s') = h (player s))"
proof -
  obtain s' where s': "loop now r s = Inr s'"
    using loop_total by blast
  have p: "player s' = physics (elapsed now s) (player s)"
    using loop_fields(3) [OF assms(2) s'] .
  from physics_cases [OF reachable_grounded [OF assms(1)], of "elapsed now s"] p s'
  show ?thesis
    by (auto simp: Let_def elapsed_def split: if_splits)
qed

theorem player_step_witness:
  "reachable run_start \<and> running run_start \<and>
   (\<exists>s'. loop 1016 calm run_start = Inr s' \<and> y (player s') = groundY \<and> vy (player s') = 0
      \<and> onGround (player s')) \<and>
   reachable airborne \<and> running airborne \<and>
   (\<exists>s'. loop 1016 calm airborne = Inr s' \<and> y (player s') = 328.8896
      \<and> vy (player s') = - 694.4 \<and> \<not> onGround (player s'))"
proof -
  have r1: "running run_start" and r2: "running airborne"
    by (simp_all add: run_start_def airborne_def)
  have f1: "lastTime run_start = 1000" "y (player run_start) = 340" "vy (player run_start) = 0"
    and f2: "lastTime airborne = 1000" "y (player airborne) = 340" "vy (player airborne) = - 720"
    by (simp_all add: run_start_def airborne_def)
  have "doJump 0 calm run_start = Inr airborne"
    by (simp add: doJump_def run_start_def airborne_def)
  from reachable.jump [OF reachable_run_start this] have ra: "reachable airborne" .
  from player_step [OF reachable_run_start r1, of 1016 calm]
    player_step [OF ra r2, of 1016 calm] reachable_run_start ra r1 r2
  show ?thesis
    by (simp add: Let_def f1 f2 gravity_def groundY_def baseH_def) blast
qed

subsection \<open>The pass bonus\<close>

lemma obstacle_step_effect:
  assumes "obstacle_step i dt s = Inr s'"
  shows "heap s' = (heap s)(obstacles s ! i :=
            after_move (x (player s)) (speed s * dt) (heap s (obstacles s ! i)))"
    and "score s' = score s +
            (if bonus_due (x (player s)) (speed s * dt) (heap s (obstacles s ! i)) then 5 else 0)"
    and "obstacles s' = obstacles s \<or>
         obstacles s' = take i (obstacles s) @ drop (Suc i) (obstacles s)"
  using assms
  by (auto simp: obstacle_step_def Let_def bonus_due_def after_move_def split: if_splits)

lemma obstacle_step_lists:
  assumes "obstacle_step n dt s = Inr s1" "distinct (obstacles s)"
  shows "take n (obstacles s1) = take n (obstacles s)" "distinct (obstacles s1)"
    "set (obstacles s1) \<subseteq> set (obstacles s)" "n < length (obstacles s)"
    "obstacles s ! n \<notin> set (take n (obstacles s))"
proof -
  show n: "n < length (obstacles s)"
    using assms(1) by (auto simp: obstacle_step_def split: if_splits)
  from obstacle_step_effect(3) [OF assms(1)]
  show "take n (obstacles s1) = take n (obstacles s)"
    using n by auto
  from obstacle_step_effect(3) [OF assms(1)]
  show "set (obstacles s1) \<subseteq> set (obstacles s)"
    by (auto dest: in_set_takeD in_set_dropD)
  have split: "obstacles s = take n (obstacles s) @ (obstacles s ! n) # drop (Suc n) (obstacles s)"
    using n by (rule id_take_nth_drop)
  have d: "distinct (take n (obstacles s) @ (obstacles s ! n) # drop (Suc n) (obstacles s))"
    using assms(2) split by simp
  from d show "obstacles s ! n \<notin> set (take n (obstacles s))"
    by simp
  from obstacle_step_effect(3) [OF assms(1)] d assms(2)
  show "distinct (obstacles s1)"
    by auto
qed

lemma obstacle_loop_effect:
  assumes "distinct (obstacles s)" "n \<le> length (obstacles s)" "obstacle_loop n dt s = Inr s'"
  shows "heap s' a =
           (if a \<in> set (take n (obstacles s))
            then after_move (x (player s)) (speed s * dt) (heap s a) else heap s a)
         \<and> score s' = score s + 5 * real (length (filter
               (\<lambda>b. bonus_due (x (player s)) (speed s * dt) (heap s b)) (take n (obstacles s))))
         \<and> set (obstacles s') \<subseteq> set (obstacles s)"
  using assms
proof (induction n arbitrary: s)
  case 0
  then show ?case by simp
next
  case (Suc n)
  from Suc.prems(3) obtain s1 where s1: "obstacle_step n dt s = Inr s1"
    and l: "obstacle_loop n dt s1 = Inr s'"
    by (auto split: sum.splits)
  note ls = obstacle_step_lists [OF s1 Suc.prems(1)]
  note fr = obstacle_step_frame [OF s1]
  note ef = obstacle_step_effect [OF s1]
  let ?an = "obstacles s ! n"
  let ?px = "x (player s)" and ?d = "speed s * dt"
  have tk: "take (Suc n) (obstacles s) = take n (obstacles s) @ [?an]"
    using ls(4) by (rule take_Suc_conv_app_nth)
  have same: "\<forall>b \<in> set (take n (obstacles s)). heap s1 b = heap s b"
    using ls(5) by (auto simp: ef(1))
  from Suc.IH [OF ls(2) fr(7) l]
  have ih1: "heap s' a =
           (if a \<in> set (take n (obstacles s))
            then after_move ?px ?d (heap s1 a) else heap s1 a)"
    and ih2: "score s' = score s1 + 5 * real (length (filter
               (\<lambda>b. bonus_due ?px ?d (heap s1 b)) (take n (obstacles s))))"
    and ih3: "set (obstacles s') \<subseteq> set (obstacles s1)"
    by (simp_all add: ls(1) fr)
  have "filter (\<lambda>b. bonus_due ?px ?d (heap s1 b)) (take n (obstacles s))
      = filter (\<lambda>b. bonus_due ?px ?d (heap s b)) (take n (obstacles s))"
    using same by (intro filter_cong) simp_all
  with ih2 ef(2) have sc: "score s' = score s + 5 * real (length (filter
               (\<lambda>b. bonus_due ?px ?d (heap s b)) (take (Suc n) (obstacles s))))"
    by (simp add: tk)
  have hp: "heap s' a =
           (if a \<in> set (take (Suc n) (obstacles s))
            then after_move ?px ?d (heap s a) else heap s a)"
    using ih1 same ls(5) by (auto simp: tk ef(1))
  from hp sc ih3 ls(3) show ?case
    by blast
qed

lemma physics_x [simp]: "x (physics dt p) = x p"
  by (simp add: physics_def Let_def)

lemma spawnObstacle_active:
  assumes "pool_inv s" "a \<in> set (obstacles s)"
  shows "heap (spawnObstacle r s) a = heap s a" "a \<in> set (obstacles (spawnObstacle r s))"
proof -
  have "a \<noteq> nextRef s" "a \<notin> set (obstaclePool s)"
    using assms by (auto simp: pool_inv_def)
  moreover have "obstaclePool s \<noteq> [] \<Longrightarrow> last (obstaclePool s) \<in> set (obstaclePool s)"
    by simp
  ultimately show "heap (spawnObstacle r s) a = heap s a"
    by (auto simp: spawnObstacle_def Let_def)
  show "a \<in> set (obstacles (spawnObstacle r s))"
    using assms(2) by (simp add: spawnObstacle_def Let_def)
qed

lemma before_obstacles_active:
  assumes "pool_inv s" "a \<in> set (obstacles s)"
  shows "heap (before_obstacles now r s) a = heap s a"
    "a \<in> set (obstacles (before_obstacles now r s))"
  using spawnObstacle_active [OF assms, of r] assms(2)
  by (simp_all add: before_obstacles_lists)

lemma awarded_active:
  assumes "pool_inv s" "a \<in> set (obstacles s)"
  shows "awarded now r s a \<longleftrightarrow>
     \<not> passed (heap s a) \<and>
     x (heap s a) - (speed s + elapsed now s * 2) * elapsed now s + w (heap s a) < x (player s)"
  using before_obstacles_active [OF assms, of now r]
  by (simp add: awarded_def Let_def before_obstacles_fields bonus_due_def)

lemma loop_effect:
  assumes "pool_inv s" "running s" "loop now r s = Inr s'"
  shows "score s' = score s + elapsed now s * 10 + 5 * real (card {a. awarded now r s a})"
    and "awarded now r s a \<Longrightarrow> passed (heap s' a)"
    and "a \<in> set (obstacles s) \<Longrightarrow>
         passed (heap s' a) \<longleftrightarrow>
           passed (heap s a) \<or>
           x (heap s a) - (speed s + elapsed now s * 2) * elapsed now s + w (heap s a)
             < x (player s)"
    and "set (obstacles s') \<subseteq> set (obstacles (before_obstacles now r s))"
proof -
  let ?b = "before_obstacles now r s"
  let ?px = "x (player ?b)" and ?d = "speed ?b * elapsed now s"
  have l: "obstacle_loop (length (obstacles ?b)) (elapsed now s) ?b = Inr s'"
    using assms(2,3) by (simp add: loop_running)
  have dist: "distinct (obstacles ?b)"
    using before_obstacles_pool_inv [OF assms(1), of now r] by (simp add: pool_inv_def)
  note ef = obstacle_loop_effect [OF dist le_refl l]
  have hp: "\<And>c. heap s' c =
      (if c \<in> set (obstacles ?b) then after_move ?px ?d (heap ?b c) else heap ?b c)"
    using ef by simp
  have "{a. awarded now r s a} = {c. bonus_due ?px ?d (heap ?b c)} \<inter> set (obstacles ?b)"
    by (auto simp: awarded_def Let_def)
  then have "card {a. awarded now r s a}
      = length (filter (\<lambda>c. bonus_due ?px ?d (heap ?b c)) (obstacles ?b))"
    using distinct_length_filter [OF dist, of "\<lambda>c. bonus_due ?px ?d (heap ?b c)"] by simp
  with ef [of a] show "score s' = score s + elapsed now s * 10 + 5 * real (card {a. awarded now r s a})"
    by (simp add: before_obstacles_fields)
  show "set (obstacles s') \<subseteq> set (obstacles ?b)"
    using ef [of a] by simp
  show "passed (heap s' a)" if "awarded now r s a"
    using that by (simp add: hp awarded_def Let_def after_move_def)
  show "passed (heap s' a) \<longleftrightarrow>
           passed (heap s a) \<or>
           x (heap s a) - (speed s + elapsed now s * 2) * elapsed now s + w (heap s a)
             < x (player s)" if "a \<in> set (obstacles s)"
    using before_obstacles_active [OF assms(1) that, of now r]
    by (auto simp: hp after_move_def bonus_due_def before_obstacles_fields)
qed

lemma stays_active_member: "stays_active a s s' \<Longrightarrow> a \<in> set (obstacles s')"
  by (induction rule: stays_active.induct) simp_all

lemma resetGame_obstacles:
  assumes "resetGame t r s = Inr s'"
  shows "set (obstacles s') \<subseteq> {nextRef s}"
proof -
  let ?s0 = "s\<lparr>obstacles := [], obstaclePool := [],
                 player := (player s)\<lparr>y := groundY, vy := 0, onGround := True\<rparr>,
                 score := 0, spawnTimer := 0, speed := 240, running := True, lastTime := t\<rparr>"
  have l: "loop t r ?s0 = Inr s'"
    using assms by (simp add: resetGame_def)
  have inv: "pool_inv ?s0" and run: "running ?s0"
    by (simp_all add: pool_inv_def)
  have "obstacles (before_obstacles t r ?s0) = [nextRef s]"
    by (simp add: before_obstacles_lists elapsed_def spawnObstacle_def Let_def)
  with loop_effect(4) [OF inv run l] show ?thesis
    by simp
qed

lemma resetGame_ends_lifetime:
  assumes "pool_inv s" "a \<in> set (obstacles s)" "resetGame t r s = Inr s'"
  shows "a \<notin> set (obstacles s')"
proof -
  have "a < nextRef s"
    using assms(1,2) by (simp add: pool_inv_def)
  with resetGame_obstacles [OF assms(3)] show ?thesis
    by auto
qed

lemma passed_persists:
  assumes "stays_active a s s'" "pool_inv s" "passed (heap s a)"
  shows "pool_inv s' \<and> passed (heap s' a)"
  using assms
proof (induction rule: stays_active.induct)
  case (here s)
  then show ?case by simp
next
  case (tick s s1 now r s2)
  then have inv: "pool_inv s1" and p: "passed (heap s1 a)"
    by simp_all
  have mem: "a \<in> set (obstacles s1)"
    using tick.hyps(1) by (rule stays_active_member)
  have "passed (heap s2 a)"
  proof (cases "running s1")
    case True
    from loop_effect(3) [OF inv True tick.hyps(2) mem] p show ?thesis
      by simp
  next
    case False
    with tick.hyps(2) p show ?thesis
      by (simp add: loop_def)
  qed
  with loop_pool_inv [OF inv tick.hyps(2)] show ?case
    by simp
next
  case (jump s s1 t r s2)
  then have inv: "pool_inv s1" and p: "passed (heap s1 a)"
    by simp_all
  have mem: "a \<in> set (obstacles s1)"
    using jump.hyps(1) by (rule stays_active_member)
  have "passed (heap s2 a)"
  proof (cases "running s1")
    case True
    with jump.hyps(2) p show ?thesis
      by (auto simp: doJump_def split: if_splits)
  next
    case False
    with jump.hyps(2) have "resetGame t r s1 = Inr s2"
      by (simp add: doJump_def)
    from resetGame_ends_lifetime [OF inv mem this] jump.hyps(3) show ?thesis
      by simp
  qed
  with doJump_pool_inv [OF inv jump.hyps(2)] show ?case
    by simp
next
  case (reset s s1 t r s2)
  then have inv: "pool_inv s1"
    by simp
  have mem: "a \<in> set (obstacles s1)"
    using reset.hyps(1) by (rule stays_active_member)
  from resetGame_ends_lifetime [OF inv mem reset.hyps(2)] reset.hyps(3) show ?case
    by simp
qed

lemma spawned_fresh:
  assumes "spawned now r s a"
  shows "a \<in> set (obstacles (before_obstacles now r s))"
    and "\<not> passed (heap (before_obstacles now r s) a)"
    and "x (heap (before_obstacles now r s) a) = baseW + 20"
    and "awarded now r s a \<longleftrightarrow> edge_left now r s a"
proof -
  let ?b = "before_obstacles now r s"
  from assms have due: "spawnTimer s - elapsed now s \<le> 0" and a: "a = last (obstacles ?b)"
    by (simp_all add: spawned_def)
  from due have os: "obstacles ?b = obstacles (spawnObstacle r s)"
    and hp: "heap ?b = heap (spawnObstacle r s)"
    by (simp_all add: before_obstacles_lists)
  show mem: "a \<in> set (obstacles ?b)"
    by (simp add: a os spawnObstacle_def Let_def)
  show np: "\<not> passed (heap ?b a)" and "x (heap ?b a) = baseW + 20"
    by (simp_all add: a os hp spawnObstacle_def Let_def)
  from mem np show "awarded now r s a \<longleftrightarrow> edge_left now r s a"
    by (simp add: awarded_def edge_left_def bonus_due_def Let_def)
qed

lemma loop_heap:
  assumes "pool_inv s" "running s" "loop now r s = Inr s'"
    "a \<in> set (obstacles (before_obstacles now r s))"
  shows "passed (heap s' a) \<longleftrightarrow>
           passed (heap (before_obstacles now r s) a) \<or> edge_left now r s a"
proof -
  let ?b = "before_obstacles now r s"
  have l: "obstacle_loop (length (obstacles ?b)) (elapsed now s) ?b = Inr s'"
    using assms(2,3) by (simp add: loop_running)
  have dist: "distinct (obstacles ?b)"
    using before_obstacles_pool_inv [OF assms(1), of now r] by (simp add: pool_inv_def)
  from obstacle_loop_effect [OF dist le_refl l, of a] assms(4)
  show ?thesis
    by (auto simp: after_move_def bonus_due_def edge_left_def Let_def)
qed

lemma lifetime_inv:
  assumes "lifetime a es ws s"
  shows "pool_inv s \<and> length ws = length es \<and>
         (\<forall>j < length es. ws ! j \<longleftrightarrow> es ! j \<and> True \<notin> set (take j es)) \<and>
         length (filter (\<lambda>v. v) ws) = (if True \<in> set es then 1 else 0) \<and>
         (a \<in> set (obstacles s) \<longrightarrow> (passed (heap s a) \<longleftrightarrow> True \<in> set es))"
  using assms
proof (induction rule: lifetime.induct)
  case (spawn s now r s')
  note sf = spawned_fresh [OF spawn.hyps(3)]
  from loop_heap [OF spawn.hyps(1,2,4) sf(1)] sf(2)
  have "passed (heap s' a) \<longleftrightarrow> edge_left now r s a"
    by simp
  with loop_pool_inv [OF spawn.hyps(1,4)] sf(4) show ?case
    by simp
next
  case (tick es ws s now r s')
  then have inv: "pool_inv s" and len: "length ws = length es"
    and nth: "\<forall>j < length es. ws ! j \<longleftrightarrow> es ! j \<and> True \<notin> set (take j es)"
    and cnt: "length (filter (\<lambda>v. v) ws) = (if True \<in> set es then 1 else 0)"
    and fl: "passed (heap s a) \<longleftrightarrow> True \<in> set es"
    by simp_all
  let ?e = "edge_left now r s a" and ?w = "awarded now r s a"
  note act = before_obstacles_active [OF inv tick.hyps(2), of now r]
  have w: "?w \<longleftrightarrow> ?e \<and> True \<notin> set es"
    using act fl by (auto simp: awarded_def edge_left_def bonus_due_def Let_def)
  have p: "passed (heap s' a) \<longleftrightarrow> True \<in> set (es @ [?e])"
    using loop_heap [OF inv tick.hyps(3,4) act(2)] act(1) fl by auto
  have "(ws @ [?w]) ! j \<longleftrightarrow> (es @ [?e]) ! j \<and> True \<notin> set (take j (es @ [?e]))"
    if "j < length (es @ [?e])" for j
  proof (cases "j < length es")
    case True
    with nth len show ?thesis
      by (simp add: nth_append)
  next
    case False
    with that have "j = length es"
      by simp
    with len w show ?thesis
      by (simp add: nth_append)
  qed
  moreover have "length (filter (\<lambda>v. v) (ws @ [?w])) = (if True \<in> set (es @ [?e]) then 1 else 0)"
    using cnt w by auto
  ultimately show ?case
    using loop_pool_inv [OF inv tick.hyps(4)] len p by simp
next
  case (jump es ws s t r s')
  then have inv: "pool_inv s"
    by simp
  from jump.hyps(3,4) have "heap s' = heap s" "obstacles s' = obstacles s"
    by (auto simp: doJump_def split: if_splits)
  with jump.IH doJump_pool_inv [OF inv jump.hyps(4)] show ?case
    by simp
qed

text \<open>C5: a tick adds 5 to the score once for each obstacle for which the bonus is due,
  beside the 10 per second. For an obstacle of the active list the bonus is due exactly
  when its flag \<open>passed\<close> is not set and its trailing edge \<open>x + w\<close>, after the move of
  this tick, is left of \<open>player.x\<close>; the tick sets the flag of every obstacle it gives
  the bonus to, and the flag after the tick is set exactly when it was set before or the
  trailing edge is left of the player. Once the flag is set, it stays set and no tick
  gives the bonus for that obstacle for as long as it stays in the active list. An
  obstacle that a tick spawns, new or taken from the pool, starts with the flag not set,
  so in that tick the bonus is due exactly when its trailing edge is left of the player.
  Over an active lifetime, from the spawning tick on, a tick therefore gives the bonus
  exactly when it is the first whose move leaves the trailing edge left of the player,
  and the bonus comes at most once. (The assumption \<open>pool_inv\<close> holds in every state the
  game can reach.)\<close>

theorem pass_bonus_once:
  assumes "pool_inv s" "running s"
  shows "\<exists>s'. loop now r s = Inr s' \<and>
     score s' = score s + elapsed now s * 10 + 5 * real (card {a. awarded now r s a}) \<and>
     (\<forall>a. awarded now r s a \<longrightarrow> passed (heap s' a)) \<and>
     (\<forall>a \<in> set (obstacles s).
        (awarded now r s a \<longleftrightarrow>
           \<not> passed (heap s a) \<and>
           x (heap s a) - (speed s + elapsed now s * 2) * elapsed now s + w (heap s a)
             < x (player s)) \<and>
        (passed (heap s' a) \<longleftrightarrow>
           passed (heap s a) \<or>
           x (heap s a) - (speed s + elapsed now s * 2) * elapsed now s + w (heap s a)
             < x (player s))) \<and>
     (\<forall>a s''. passed (heap s' a) \<and> stays_active a s' s'' \<longrightarrow>
        passed (heap s'' a) \<and> (\<forall>now' r'. \<not> awarded now' r' s'' a)) \<and>
     (\<forall>a. spawned now r s a \<longrightarrow>
        \<not> passed (heap (before_obstacles now r s) a) \<and>
        x (heap (before_obstacles now r s) a) = baseW + 20 \<and>
        (awarded now r s a \<longleftrightarrow> edge_left now r s a) \<and>
        (passed (heap s' a) \<longleftrightarrow> edge_left now r s a)) \<and>
     (\<forall>a es ws. lifetime a es ws s \<longrightarrow>
        length ws = length es \<and>
        (\<forall>j < length es. ws ! j \<longleftrightarrow> es ! j \<and> True \<notin> set (take j es)) \<and>
        length (filter (\<lambda>v. v) ws) \<le> 1 \<and>
        (a \<in> set (obstacles s) \<longrightarrow>
           (passed (heap s a) \<longleftrightarrow> True \<in> set es) \<and>
           (awarded now r s a \<longleftrightarrow> edge_left now r s a \<and> True \<notin> set es)))"
proof -
  obtain s' where s': "loop now r s = Inr s'"
    using loop_total by blast
  have inv': "pool_inv s'"
    using loop_pool_inv [OF assms(1) s'] .
  have later: "passed (heap s'' a) \<and> (\<forall>now' r'. \<not> awarded now' r' s'' a)"
    if "passed (heap s' a)" "stays_active a s' s''" for a s''
  proof -
    from passed_persists [OF that(2) inv' that(1)]
    have inv'': "pool_inv s''" and p: "passed (heap s'' a)"
      by simp_all
    from awarded_active [OF inv'' stays_active_member [OF that(2)]] p show ?thesis
      by simp
  qed
  have fresh: "\<not> passed (heap (before_obstacles now r s) a) \<and>
        x (heap (before_obstacles now r s) a) = baseW + 20 \<and>
        (awarded now r s a \<longleftrightarrow> edge_left now r s a) \<and>
        (passed (heap s' a) \<longleftrightarrow> edge_left now r s a)"
    if "spawned now r s a" for a
    using spawned_fresh [OF that] loop_heap [OF assms s' spawned_fresh(1) [OF that]]
    by simp
  have life: "length ws = length es \<and>
        (\<forall>j < length es. ws ! j \<longleftrightarrow> es ! j \<and> True \<notin> set (take j es)) \<and>
        length (filter (\<lambda>v. v) ws) \<le> 1 \<and>
        (a \<in> set (obstacles s) \<longrightarrow>
           (passed (heap s a) \<longleftrightarrow> True \<in> set es) \<and>
           (awarded now r s a \<longleftrightarrow> edge_left now r s a \<and> True \<notin> set es))"
    if "lifetime a es ws s" for a es ws
  proof -
    note li = lifetime_inv [OF that]
    have "awarded now r s a \<longleftrightarrow> edge_left now r s a \<and> True \<notin> set es"
      if mem: "a \<in> set (obstacles s)"
      using before_obstacles_active [OF assms(1) mem, of now r] li mem
      by (auto simp: awarded_def edge_left_def bonus_due_def Let_def)
    with li show ?thesis
      by simp
  qed
  have tick: "score s' = score s + elapsed now s * 10 + 5 * real (card {a. awarded now r s a}) \<and>
     (\<forall>a. awarded now r s a \<longrightarrow> passed (heap s' a)) \<and>
     (\<forall>a \<in> set (obstacles s).
        (awarded now r s a \<longleftrightarrow>
           \<not> passed (heap s a) \<and>
           x (heap s a) - (speed s + elapsed now s * 2) * elapsed now s + w (heap s a)
             < x (player s)) \<and>
        (passed (heap s' a) \<longleftrightarrow>
           passed (heap s a) \<or>
           x (heap s a) - (speed s + elapsed now s * 2) * elapsed now s + w (heap s a)
             < x (player s)))"
    using loop_effect [OF assms s'] awarded_active [OF assms(1)] by blast
  from tick later fresh life s' show ?thesis
    by blast
qed

theorem pass_bonus_once_witness:
  "pool_inv passing \<and> running passing \<and> 0 \<in> set (obstacles passing) \<and>
   \<not> passed (heap passing 0) \<and> awarded 1033 calm passing 0 \<and>
   (\<exists>s'. loop 1033 calm passing = Inr s' \<and> passed (heap s' 0) \<and> stays_active 0 s' s' \<and>
      \<not> awarded 2000 calm s' 0) \<and>
   pool_inv fresh_run \<and> running fresh_run \<and> spawned 1000 calm fresh_run 0 \<and>
   \<not> passed (heap (before_obstacles 1000 calm fresh_run) 0) \<and>
   \<not> awarded 1000 calm fresh_run 0 \<and>
   lifetime 0 [False] [False] run_start \<and> 0 \<in> set (obstacles run_start) \<and>
   \<not> passed (heap run_start 0)"
proof -
  have inv: "pool_inv passing" and run: "running passing"
    and mem: "0 \<in> set (obstacles passing)" and np: "\<not> passed (heap passing 0)"
    by (simp_all add: pool_inv_def passing_def run_start_def)
  have edge: "x (heap passing 0) - (speed passing + elapsed 1033 passing * 2) * elapsed 1033 passing
      + w (heap passing 0) < x (player passing)"
    by (simp add: passing_def run_start_def elapsed_def)
  have kept: "obstacles (projr (loop 1033 calm passing)) = [0]"
    by (simp add: loop_def passing_def run_start_def calm_def physics_def obstacle_step_def
        rectsOverlap_def gravity_def groundY_def baseH_def Let_def)
  from pass_bonus_once [OF inv run, of 1033 calm] obtain s' where
    l: "loop 1033 calm passing = Inr s'"
    and a: "\<forall>a. awarded 1033 calm passing a \<longrightarrow> passed (heap s' a)"
    and b: "\<forall>a \<in> set (obstacles passing).
        (awarded 1033 calm passing a \<longleftrightarrow>
           \<not> passed (heap passing a) \<and>
           x (heap passing a) - (speed passing + elapsed 1033 passing * 2) * elapsed 1033 passing
             + w (heap passing a) < x (player passing)) \<and>
        (passed (heap s' a) \<longleftrightarrow>
           passed (heap passing a) \<or>
           x (heap passing a) - (speed passing + elapsed 1033 passing * 2) * elapsed 1033 passing
             + w (heap passing a) < x (player passing))"
    and c: "\<forall>a s''. passed (heap s' a) \<and> stays_active a s' s'' \<longrightarrow>
        passed (heap s'' a) \<and> (\<forall>now' r'. \<not> awarded now' r' s'' a)"
    by (elim exE conjE) (rule that, assumption+)
  from b mem np edge have aw: "awarded 1033 calm passing 0"
    by blast
  with a have p: "passed (heap s' 0)"
    by blast
  from kept l have st: "stays_active 0 s' s'"
    by (simp add: stays_active.here)
  from c p st have na: "\<not> awarded 2000 calm s' 0"
    by blast
  have first: "pool_inv passing \<and> running passing \<and> 0 \<in> set (obstacles passing) \<and>
      \<not> passed (heap passing 0) \<and> awarded 1033 calm passing 0 \<and>
      (\<exists>s'. loop 1033 calm passing = Inr s' \<and> passed (heap s' 0) \<and> stays_active 0 s' s' \<and>
         \<not> awarded 2000 calm s' 0)"
    using inv run mem np aw l p st na by blast
  have invf: "pool_inv fresh_run" and runf: "running fresh_run"
    by (simp_all add: pool_inv_def fresh_run_def initial_def)
  have sp: "spawned 1000 calm fresh_run 0"
    by (simp add: spawned_def elapsed_def before_obstacles_def spawnObstacle_def fresh_run_def
        initial_def Let_def)
  have lp: "loop 1000 calm fresh_run = Inr run_start"
    by (simp add: loop_def fresh_run_def initial_def calm_def run_start_def spawnObstacle_def
        physics_def obstacle_step_def rectsOverlap_def rand_def loadHighScore_def parseInt_zero
        groundY_def baseH_def baseW_def gravity_def Let_def)
  have invr: "pool_inv run_start" and runr: "running run_start"
    and memr: "0 \<in> set (obstacles run_start)"
    by (simp_all add: pool_inv_def run_start_def)
  have ne: "\<not> edge_left 1000 calm fresh_run 0"
    by (simp add: edge_left_def elapsed_def before_obstacles_def spawnObstacle_def physics_def
        fresh_run_def initial_def calm_def baseW_def Let_def)
  from pass_bonus_once [OF invf runf, of 1000 calm] obtain t where
    "loop 1000 calm fresh_run = Inr t"
    and sf: "\<forall>a. spawned 1000 calm fresh_run a \<longrightarrow>
        \<not> passed (heap (before_obstacles 1000 calm fresh_run) a) \<and>
        x (heap (before_obstacles 1000 calm fresh_run) a) = baseW + 20 \<and>
        (awarded 1000 calm fresh_run a \<longleftrightarrow> edge_left 1000 calm fresh_run a) \<and>
        (passed (heap t a) \<longleftrightarrow> edge_left 1000 calm fresh_run a)"
    by (elim exE conjE) (rule that, assumption+)
  from sf sp ne have f0: "\<not> passed (heap (before_obstacles 1000 calm fresh_run) 0)"
    and a0: "\<not> awarded 1000 calm fresh_run 0"
    by blast+
  from lifetime.spawn [OF invf runf sp lp] ne a0
  have lt: "lifetime 0 [False] [False] run_start"
    by simp
  from pass_bonus_once [OF invr runr, of 1016 calm] obtain u where
    "loop 1016 calm run_start = Inr u"
    and lf: "\<forall>a es ws. lifetime a es ws run_start \<longrightarrow>
        length ws = length es \<and>
        (\<forall>j < length es. ws ! j \<longleftrightarrow> es ! j \<and> True \<notin> set (take j es)) \<and>
        length (filter (\<lambda>v. v) ws) \<le> 1 \<and>
        (a \<in> set (obstacles run_start) \<longrightarrow>
           (passed (heap run_start a) \<longleftrightarrow> True \<in> set es) \<and>
           (awarded 1016 calm run_start a \<longleftrightarrow> edge_left 1016 calm run_start a \<and> True \<notin> set es))"
    by (elim exE conjE) (rule that, assumption+)
  from lf [rule_format, OF lt] memr have "\<not> passed (heap run_start 0)"
    by simp
  with first invf runf sp f0 a0 lt memr show ?thesis
    by blast
qed

subsection \<open>The high score\<close>














































text \<open>C4: with no entry, or an empty one, the high score read at startup is 0. With an
  entry that does not start with a number, as \<open>abc\<close>, \<open>parseInt\<close> gives \<open>NaN\<close>, not 0;
  nothing is thrown. \<open>score > highScore\<close> is then false for every score, so \<open>gameOver\<close>
  never replaces the entry.\<close>

theorem loadHighScore_unparseable:
  "loadHighScore None = Finite 0 \<and> loadHighScore (Some []) = Finite 0 \<and>
   loadHighScore (Some ''abc'') = NaN \<and>
   highScore (gameOver ((initial (Some ''abc''))\<lparr>running := True, score := 5\<rparr>)) = NaN \<and>
   storage (gameOver ((initial (Some ''abc''))\<lparr>running := True, score := 5\<rparr>)) = Some ''abc''"
  by (simp add: loadHighScore_def parseInt_def isWhiteSpace_def isDigit_def digitsValue_def
      digitValue_def initial_def gameOver_def Let_def)

end
